theory Spec2Isabelle
  imports Main "HOL-Library.Word" "HOL-Library.Sublist"
begin

section \<open>Data model of src/index.ts\<close>

text \<open>
  The script scans a window of recent blocks for \<^verbatim>\<open>approve(address,uint256)\<close> calls
  whose spender is one fixed address, collects the token contracts in a JavaScript
  \<^verbatim>\<open>Set<string>\<close> and then asks every collected contract for its name.

  Everything that can throw is a value of a sum type (\<open>Inl\<close> the error). The chain
  client (ethers' JsonRpcProvider) and ethers' ABI decoder are collaborators outside the
  repository: they are parameters of the model, deterministic functions from a request to
  its answer.
\<close>

datatype error =
    InvalidAddress      \<comment> \<open>ethers.getAddress: not a 40-digit hex address\<close>
  | BadChecksum         \<comment> \<open>ethers.getAddress: mixed case that is not the checksum\<close>
  | DecodeError         \<comment> \<open>approveInterface.parseTransaction threw\<close>
  | ConnectFailed       \<comment> \<open>new JsonRpcProvider / getNetwork threw\<close>
  | RequestFailed       \<comment> \<open>a request to the node was rejected\<close>

text \<open>A transaction as the provider delivers it: \<^verbatim>\<open>tx.to\<close> is \<^verbatim>\<open>null\<close> for a contract
  creation, \<^verbatim>\<open>tx.data\<close> is the call data as a hex string.\<close>

record transaction =
  tx_to :: "string option"
  tx_data :: string
  tx_hash :: string

record block =
  block_number :: int
  prefetchedTransactions :: "transaction list"

text \<open>\<^verbatim>\<open>provider.getBlock(n, true)\<close> is a promise of \<^verbatim>\<open>Block | null\<close>: it is rejected, or
  it resolves to \<^verbatim>\<open>null\<close> or to a block.\<close>

datatype fetch = Rejected | Resolved "block option"

text \<open>What \<^verbatim>\<open>parseTransaction\<close> returns when it does not throw and does not return
  \<^verbatim>\<open>null\<close>: the name of the function and \<^verbatim>\<open>args[0]\<close>, \<^verbatim>\<open>args[1]\<close>.\<close>

record decoded =
  d_name :: string
  d_spender :: string
  d_value :: nat

type_synonym parser = "string \<Rightarrow> error + decoded option"

record chain =
  connect :: "string \<Rightarrow> error + unit"
  getBlockNumber :: "error + int"
  getBlock :: "int \<Rightarrow> fetch"
  callName :: "string \<Rightarrow> error + string"

record config =
  blocksToScan :: int
  batchSize :: int

definition BLOCKS_TO_SCAN :: int where
  "BLOCKS_TO_SCAN = 100"

definition BATCH_SIZE :: int where
  "BATCH_SIZE = 10"

definition defaultConfig :: config where
  "defaultConfig = \<lparr>blocksToScan = BLOCKS_TO_SCAN, batchSize = BATCH_SIZE\<rparr>"

section \<open>Addresses\<close>

text \<open>
  Modelled from the spec: \<^verbatim>\<open>ethers.getAddress\<close> is library code, not under src/. The
  spec's glossary describes it as the canonical textual encoding of a 20-byte address
  using mixed case derived from its hash. The model follows the library's algorithm: the
  argument must be 40 hexadecimal digits with an optional \<^verbatim>\<open>0x\<close>; the digits are
  lower-cased and digit \<open>i\<close> is upper-cased when nibble \<open>i\<close> of the keccak-256 hash of the
  lower-cased digits is at least 8; an argument that mixes upper and lower case letters
  must already be that result. The hash is the parameter \<open>K\<close>: \<open>K digits i\<close> says whether
  nibble \<open>i\<close> of the hash of \<open>digits\<close> is at least 8. The ICAP form of an address, which
  the library also accepts, is not modelled (it is rejected as \<open>InvalidAddress\<close>).
\<close>

type_synonym keccak = "string \<Rightarrow> nat \<Rightarrow> bool"

definition toLowerCase :: "char \<Rightarrow> char" where
  "toLowerCase c =
     (let n = (of_char c :: nat) in if 65 \<le> n \<and> n \<le> 90 then char_of (n + 32) else c)"

definition toUpperCase :: "char \<Rightarrow> char" where
  "toUpperCase c =
     (let n = (of_char c :: nat) in if 97 \<le> n \<and> n \<le> 122 then char_of (n - 32) else c)"

definition isHexDigit :: "char \<Rightarrow> bool" where
  "isHexDigit c =
     (let n = (of_char c :: nat) in
        (48 \<le> n \<and> n \<le> 57) \<or> (65 \<le> n \<and> n \<le> 70) \<or> (97 \<le> n \<and> n \<le> 102))"

definition isUpperHex :: "char \<Rightarrow> bool" where
  "isUpperHex c = (let n = (of_char c :: nat) in 65 \<le> n \<and> n \<le> 70)"

definition isLowerHex :: "char \<Rightarrow> bool" where
  "isLowerHex c = (let n = (of_char c :: nat) in 97 \<le> n \<and> n \<le> 102)"

text \<open>The test \<^verbatim>\<open>/([A-F].*[a-f])|([a-f].*[A-F])/\<close>: some letter A-F and some letter a-f.\<close>

definition mixedCase :: "string \<Rightarrow> bool" where
  "mixedCase s = (list_ex isUpperHex s \<and> list_ex isLowerHex s)"

fun applyCase :: "(nat \<Rightarrow> bool) \<Rightarrow> nat \<Rightarrow> string \<Rightarrow> string" where
  "applyCase up i [] = []"
| "applyCase up i (c # cs) = (if up i then toUpperCase c else c) # applyCase up (Suc i) cs"

definition getChecksumAddress :: "keccak \<Rightarrow> string \<Rightarrow> string" where
  "getChecksumAddress K address =
     (let chars = drop 2 (map toLowerCase address)
      in ''0x'' @ applyCase (K chars) 0 chars)"

text \<open>The digits of \<^verbatim>\<open>/^(0x)?[0-9a-fA-F]{40}$/\<close>: the argument without its \<^verbatim>\<open>0x\<close>.\<close>

definition addressDigits :: "string \<Rightarrow> string" where
  "addressDigits s = (if take 2 s = ''0x'' then drop 2 s else s)"

definition getAddress :: "keccak \<Rightarrow> string \<Rightarrow> error + string" where
  "getAddress K s =
     (let digits = addressDigits s in
        if length digits = 40 \<and> list_all isHexDigit digits then
          (let address = ''0x'' @ digits;
               result = getChecksumAddress K address
           in if mixedCase address \<and> result \<noteq> address then Inl BadChecksum
              else Inr result)
        else Inl InvalidAddress)"

definition TARGET_SPENDER_ADDRESS :: "keccak \<Rightarrow> error + string" where
  "TARGET_SPENDER_ADDRESS K = getAddress K ''0xb300000b72deaeb607a12d5f54773d1c19c7028d''"

text \<open>\<^verbatim>\<open>ethers.id("approve(address,uint256)").substring(0, 10)\<close>: the value is the one the
  source's comment gives.\<close>

definition APPROVE_FUNC_SELECTOR :: string where
  "APPROVE_FUNC_SELECTOR = ''0x095ea7b3''"

section \<open>The scan\<close>

text \<open>Line 73: \<^verbatim>\<open>tx.to && tx.data && tx.data.startsWith(APPROVE_FUNC_SELECTOR)\<close>. An empty
  string is falsy in JavaScript, as \<^verbatim>\<open>null\<close> is.\<close>

definition selectorMatches :: "transaction \<Rightarrow> bool" where
  "selectorMatches tx =
     ((case tx_to tx of None \<Rightarrow> False | Some t \<Rightarrow> t \<noteq> [])
      \<and> tx_data tx \<noteq> []
      \<and> prefix APPROVE_FUNC_SELECTOR (tx_data tx))"

text \<open>Lines 80 to 92, for a decoded call: the token address the transaction contributes, if
  any. Both calls of \<^verbatim>\<open>getAddress\<close> can throw.\<close>

definition approvalFilter :: "keccak \<Rightarrow> string \<Rightarrow> decoded \<Rightarrow> error + string option" where
  "approvalFilter K txTo decodedData =
     (if d_name decodedData = ''approve'' then
        (let spender = d_spender decodedData in
           case getAddress K txTo of
             Inl e \<Rightarrow> Inl e
           | Inr tokenAddress \<Rightarrow>
               (case getAddress K spender of
                  Inl e \<Rightarrow> Inl e
                | Inr sp \<Rightarrow>
                    if Inr sp = TARGET_SPENDER_ADDRESS K then Inr (Some tokenAddress)
                    else Inr None))
      else Inr None)"

text \<open>The body of the \<^verbatim>\<open>try\<close> of lines 74 to 93.\<close>

definition decodeCandidate :: "keccak \<Rightarrow> parser \<Rightarrow> string \<Rightarrow> string \<Rightarrow> error + string option" where
  "decodeCandidate K parseTransaction txTo txData =
     (case parseTransaction txData of
        Inl e \<Rightarrow> Inl e
      | Inr None \<Rightarrow> Inr None
      | Inr (Some decodedData) \<Rightarrow> approvalFilter K txTo decodedData)"

text \<open>\<^verbatim>\<open>foundTokens\<close> is a \<^verbatim>\<open>Set<string>\<close>, which iterates in insertion order: a list, with
  \<^verbatim>\<open>add\<close> appending a string that is not yet a member.\<close>

type_synonym registry = "string list"

definition add :: "registry \<Rightarrow> string \<Rightarrow> registry" where
  "add foundTokens a = (if a \<in> set foundTokens then foundTokens else foundTokens @ [a])"

text \<open>One iteration of the loop of line 71. The \<^verbatim>\<open>catch\<close> of line 94 only warns. A
  transaction that passes the test of line 73 has a destination.\<close>

definition processTx :: "keccak \<Rightarrow> parser \<Rightarrow> registry \<Rightarrow> transaction \<Rightarrow> registry" where
  "processTx K parseTransaction foundTokens tx =
     (if selectorMatches tx then
        (case tx_to tx of
           None \<Rightarrow> foundTokens
         | Some txTo \<Rightarrow>
             (case decodeCandidate K parseTransaction txTo (tx_data tx) of
                Inl decodeError \<Rightarrow> foundTokens
              | Inr None \<Rightarrow> foundTokens
              | Inr (Some tokenAddress) \<Rightarrow>
                  if tokenAddress \<notin> set foundTokens then add foundTokens tokenAddress
                  else foundTokens))
      else foundTokens)"

fun processTxs :: "keccak \<Rightarrow> parser \<Rightarrow> registry \<Rightarrow> transaction list \<Rightarrow> registry" where
  "processTxs K parseTransaction foundTokens [] = foundTokens"
| "processTxs K parseTransaction foundTokens (tx # txs) =
     processTxs K parseTransaction (processTx K parseTransaction foundTokens tx) txs"

text \<open>Lines 65 to 100 for one element of \<^verbatim>\<open>blocks\<close>: \<^verbatim>\<open>null\<close> and a block without
  transactions are skipped. (\<^verbatim>\<open>prefetchedTransactions\<close> is always an array here, the
  blocks being fetched with their transactions.)\<close>

definition processBlock :: "keccak \<Rightarrow> parser \<Rightarrow> registry \<Rightarrow> block option \<Rightarrow> registry" where
  "processBlock K parseTransaction foundTokens blk =
     (case blk of
        None \<Rightarrow> foundTokens
      | Some b \<Rightarrow>
          if prefetchedTransactions b = [] then foundTokens
          else processTxs K parseTransaction foundTokens (prefetchedTransactions b))"

fun processBlocks :: "keccak \<Rightarrow> parser \<Rightarrow> registry \<Rightarrow> block option list \<Rightarrow> registry" where
  "processBlocks K parseTransaction foundTokens [] = foundTokens"
| "processBlocks K parseTransaction foundTokens (blk # blks) =
     processBlocks K parseTransaction (processBlock K parseTransaction foundTokens blk) blks"

text \<open>\<^verbatim>\<open>await Promise.all(blockPromises)\<close>: one rejected fetch rejects the whole batch.\<close>

fun promiseAll :: "fetch list \<Rightarrow> error + block option list" where
  "promiseAll [] = Inr []"
| "promiseAll (Rejected # fs) = Inl RequestFailed"
| "promiseAll (Resolved b # fs) =
     (case promiseAll fs of Inl e \<Rightarrow> Inl e | Inr bs \<Rightarrow> Inr (b # bs))"

text \<open>What a fetch that was not rejected resolved to.\<close>

fun resolvedBlock :: "fetch \<Rightarrow> block option" where
  "resolvedBlock (Resolved b) = b"
| "resolvedBlock Rejected = None"

text \<open>The state of the loop of line 51: the registry, and the heights requested so far,
  one list for each batch.\<close>

record scan_state =
  foundTokens :: registry
  fetchLog :: "int list list"

datatype scan_result = Finished scan_state | Aborted error scan_state

text \<open>The loop of lines 51 to 103. It does not end when the batch size is not positive, so
  it is a partial function: \<open>None\<close> is a loop that never returns.\<close>

partial_function (option) scanLoop ::
  "keccak \<Rightarrow> parser \<Rightarrow> (int \<Rightarrow> fetch) \<Rightarrow> int \<Rightarrow> int \<Rightarrow> int \<Rightarrow> scan_state \<Rightarrow> scan_result option"
where
  "scanLoop K parseTransaction fetchBlock B latestBlockNumber currentBlock st =
     (if currentBlock \<le> latestBlockNumber then
        (let endBatchBlock = min (currentBlock + B - 1) latestBlockNumber;
             heights = [currentBlock..endBatchBlock];
             st1 = st\<lparr>fetchLog := fetchLog st @ [heights]\<rparr>
         in case promiseAll (map fetchBlock heights) of
              Inl e \<Rightarrow> Some (Aborted e st1)
            | Inr blocks \<Rightarrow>
                scanLoop K parseTransaction fetchBlock B latestBlockNumber (currentBlock + B)
                  (st1\<lparr>foundTokens := processBlocks K parseTransaction (foundTokens st1) blocks\<rparr>))
      else Some (Finished st))"

declare scanLoop.simps [code]

definition startBlock :: "config \<Rightarrow> int \<Rightarrow> int" where
  "startBlock cfg latestBlockNumber = max 0 (latestBlockNumber - blocksToScan cfg + 1)"

definition scanBlocks ::
  "keccak \<Rightarrow> parser \<Rightarrow> config \<Rightarrow> (int \<Rightarrow> fetch) \<Rightarrow> int \<Rightarrow> scan_result option" where
  "scanBlocks K parseTransaction cfg fetchBlock latestBlockNumber =
     scanLoop K parseTransaction fetchBlock (batchSize cfg) latestBlockNumber
       (startBlock cfg latestBlockNumber) \<lparr>foundTokens = [], fetchLog = []\<rparr>"

section \<open>Enrichment and the program\<close>

record token_record =
  address :: string
  name :: string

text \<open>One iteration of the loop of line 114: the \<^verbatim>\<open>catch\<close> pushes the marker.\<close>

definition enrichOne :: "chain \<Rightarrow> string \<Rightarrow> token_record" where
  "enrichOne c tokenAddr =
     (case callName c tokenAddr of
        Inr tokenName \<Rightarrow> \<lparr>address = tokenAddr, name = tokenName\<rparr>
      | Inl e \<Rightarrow> \<lparr>address = tokenAddr, name = ''<Error fetching name>''\<rparr>)"

fun enrich :: "chain \<Rightarrow> registry \<Rightarrow> token_record list" where
  "enrich c [] = []"
| "enrich c (tokenAddr # rest) = enrichOne c tokenAddr # enrich c rest"

text \<open>What the script reports, and the requests it sends to the node, in order.\<close>

datatype outcome =
    NotConfigured                      \<comment> \<open>line 139\<close>
  | ConnectError                       \<comment> \<open>line 41\<close>
  | UnexpectedError                    \<comment> \<open>line 129\<close>
  | NoApprovals                        \<comment> \<open>line 107\<close>
  | ScanComplete "token_record list"   \<comment> \<open>line 126, with \<^verbatim>\<open>results\<close>\<close>
  | ScriptFailed                       \<comment> \<open>line 143\<close>

datatype request = Connect string | GetBlockNumber | GetBlock int | CallName string

text \<open>\<^verbatim>\<open>scanRecentApprovals\<close>: how its promise settles (\<open>Inl\<close> rejected), and the requests
  sent. Every statement that can throw is inside one of the two \<^verbatim>\<open>try\<close> blocks.\<close>

definition scanRecentApprovals ::
  "keccak \<Rightarrow> parser \<Rightarrow> config \<Rightarrow> chain \<Rightarrow> string \<Rightarrow> ((error + outcome) \<times> request list) option" where
  "scanRecentApprovals K parseTransaction cfg c url =
     (case connect c url of
        Inl e \<Rightarrow> Some (Inr ConnectError, [Connect url])
      | Inr u \<Rightarrow>
          (case getBlockNumber c of
             Inl e \<Rightarrow> Some (Inr UnexpectedError, [Connect url, GetBlockNumber])
           | Inr latestBlockNumber \<Rightarrow>
               (case scanBlocks K parseTransaction cfg (getBlock c) latestBlockNumber of
                  None \<Rightarrow> None
                | Some (Aborted e st) \<Rightarrow>
                    Some (Inr UnexpectedError,
                          [Connect url, GetBlockNumber] @ map GetBlock (concat (fetchLog st)))
                | Some (Finished st) \<Rightarrow>
                    if length (foundTokens st) = 0 then
                      Some (Inr NoApprovals,
                            [Connect url, GetBlockNumber] @ map GetBlock (concat (fetchLog st)))
                    else
                      Some (Inr (ScanComplete (enrich c (foundTokens st))),
                            [Connect url, GetBlockNumber] @ map GetBlock (concat (fetchLog st))
                              @ map CallName (foundTokens st)))))"

text \<open>Line 6: \<^verbatim>\<open>process.env.BSC_RPC_URL || "YOUR_BSC_RPC_URL"\<close>.\<close>

definition BSC_RPC_URL :: "string option \<Rightarrow> string" where
  "BSC_RPC_URL env =
     (case env of None \<Rightarrow> ''YOUR_BSC_RPC_URL''
      | Some s \<Rightarrow> if s = [] then ''YOUR_BSC_RPC_URL'' else s)"

record process =
  requests :: "request list"
  report :: outcome
  exitCode :: nat

text \<open>Lines 138 to 146. Only \<^verbatim>\<open>process.exit(1)\<close> sets an exit code.\<close>

definition main ::
  "keccak \<Rightarrow> parser \<Rightarrow> config \<Rightarrow> chain \<Rightarrow> string option \<Rightarrow> process option" where
  "main K parseTransaction cfg c env =
     (if BSC_RPC_URL env = [] \<or> BSC_RPC_URL env = ''YOUR_BSC_RPC_URL'' then
        Some \<lparr>requests = [], report = NotConfigured, exitCode = 0\<rparr>
      else
        (case scanRecentApprovals K parseTransaction cfg c (BSC_RPC_URL env) of
           None \<Rightarrow> None
         | Some (Inl err, reqs) \<Rightarrow> Some \<lparr>requests = reqs, report = ScriptFailed, exitCode = 1\<rparr>
         | Some (Inr oc, reqs) \<Rightarrow> Some \<lparr>requests = reqs, report = oc, exitCode = 0\<rparr>))"

section \<open>Call data as bytes\<close>








section \<open>Notions used in the statements\<close>

text \<open>How a scan ended, for the caller: the error it stopped at, or the registry.\<close>

fun registryOf :: "scan_result \<Rightarrow> error + registry" where
  "registryOf (Finished st) = Inr (foundTokens st)"
| "registryOf (Aborted e st) = Inl e"

fun stateOf :: "scan_result \<Rightarrow> scan_state" where
  "stateOf (Finished st) = st"
| "stateOf (Aborted e st) = st"

text \<open>Every entry of the registry is its own checksum form, and no string is there twice.\<close>

definition normalizedRegistry :: "keccak \<Rightarrow> registry \<Rightarrow> bool" where
  "normalizedRegistry K reg = (distinct reg \<and> list_all (\<lambda>a. getAddress K a = Inr a) reg)"

section \<open>Sample inputs\<close>

text \<open>Concrete collaborators on which the theorems below are instantiated. \<open>sampleHash\<close>
  stands for keccak-256: it upper-cases every third digit. \<open>sampleParser\<close> decodes call
  data of exactly 4 + 32 + 32 bytes and throws on any other length.\<close>

definition sampleHash :: keccak where
  "sampleHash digits i = (i mod 3 = 0)"

definition sampleParser :: parser where
  "sampleParser txData =
     (if length txData = 138 then
        Inr (Some \<lparr>d_name = ''approve'', d_spender = ''0x'' @ take 40 (drop 34 txData), d_value = 0\<rparr>)
      else Inl DecodeError)"

definition approveData :: "string \<Rightarrow> string" where
  "approveData spenderDigits =
     ''0x095ea7b3'' @ replicate 24 CHR ''0'' @ spenderDigits @ replicate 64 CHR ''0''"

definition sampleToken :: string where
  "sampleToken = ''0x55d398326f99059ff775485246999027b3197955''"

definition approveTx :: transaction where
  "approveTx = \<lparr>tx_to = Some sampleToken,
                 tx_data = approveData ''b300000b72deaeb607a12d5f54773d1c19c7028d'',
                 tx_hash = ''0x01''\<rparr>"

definition malformedTx :: transaction where
  "malformedTx = \<lparr>tx_to = Some sampleToken, tx_data = ''0x095ea7b3ff'', tx_hash = ''0x02''\<rparr>"

text \<open>The same token, its address written in upper case.\<close>

definition upperCaseTx :: transaction where
  "upperCaseTx = \<lparr>tx_to = Some ''0x55D398326F99059FF775485246999027B3197955'',
                   tx_data = approveData ''b300000b72deaeb607a12d5f54773d1c19c7028d'',
                   tx_hash = ''0x03''\<rparr>"

definition sampleCall :: decoded where
  "sampleCall = \<lparr>d_name = ''approve'',
                  d_spender = ''0xb300000b72deaeb607a12d5f54773d1c19c7028d'', d_value = 0\<rparr>"

text \<open>Height 6 holds the approval, every other height resolves to \<^verbatim>\<open>null\<close>.\<close>

definition sampleFetch :: "int \<Rightarrow> fetch" where
  "sampleFetch h =
     (if h = 6 then Resolved (Some \<lparr>block_number = 6, prefetchedTransactions = [malformedTx, approveTx]\<rparr>)
      else Resolved None)"

text \<open>The sample token's \<^verbatim>\<open>name()\<close> reverts; any other contract answers.\<close>

definition sampleChain :: chain where
  "sampleChain = \<lparr>connect = (\<lambda>url. Inr ()), getBlockNumber = Inr 7,
                   getBlock = sampleFetch,
                   callName = (\<lambda>a. if a = ''0x55d398326F99059Ff775485246999027b3197955''
                                    then Inl RequestFailed else Inr ''Wrapped BNB'')\<rparr>"

text \<open>A node that cannot be reached.\<close>

definition deadChain :: chain where
  "deadChain = \<lparr>connect = (\<lambda>url. Inl ConnectFailed), getBlockNumber = Inl RequestFailed,
                 getBlock = (\<lambda>h. Rejected), callName = (\<lambda>a. Inl RequestFailed)\<rparr>"

text \<open>A node that accepts the connection and fails at the first request.\<close>

definition failingChain :: chain where
  "failingChain = \<lparr>connect = (\<lambda>url. Inr ()), getBlockNumber = Inl RequestFailed,
                    getBlock = (\<lambda>h. Rejected), callName = (\<lambda>a. Inl RequestFailed)\<rparr>"

definition smallConfig :: config where
  "smallConfig = \<lparr>blocksToScan = 5, batchSize = 2\<rparr>"


text \<open>The approval in block 3, the fetch of height 6 rejected.\<close>

definition earlyFetch :: "int \<Rightarrow> fetch" where
  "earlyFetch h =
     (if h = 3 then Resolved (Some \<lparr>block_number = 3, prefetchedTransactions = [approveTx]\<rparr>)
      else if h = 6 then Rejected
      else Resolved None)"

definition wideConfig :: config where
  "wideConfig = \<lparr>blocksToScan = 5, batchSize = 10\<rparr>"

section \<open>Addresses: normalisation is idempotent and ignores case\<close>

lemma toLowerCase_idem: "toLowerCase (toLowerCase c) = toLowerCase c"
  by (auto simp: toLowerCase_def Let_def)

lemma toLowerCase_toUpperCase: "toLowerCase (toUpperCase c) = toLowerCase c"
  by (auto simp: toLowerCase_def toUpperCase_def Let_def)

lemma isHexDigit_toLowerCase: "isHexDigit c \<Longrightarrow> isHexDigit (toLowerCase c)"
  by (auto simp: toLowerCase_def isHexDigit_def Let_def)

lemma isHexDigit_toUpperCase: "isHexDigit c \<Longrightarrow> isHexDigit (toUpperCase c)"
  by (auto simp: toUpperCase_def isHexDigit_def Let_def)

lemma length_applyCase: "length (applyCase up i cs) = length cs"
  by (induction cs arbitrary: i) auto

lemma lower_applyCase: "map toLowerCase (applyCase up i cs) = map toLowerCase cs"
  by (induction cs arbitrary: i) (auto simp: toLowerCase_toUpperCase)

lemma hex_applyCase: "list_all isHexDigit cs \<Longrightarrow> list_all isHexDigit (applyCase up i cs)"
  by (induction cs arbitrary: i) (auto simp: isHexDigit_toUpperCase)


lemma getAddress_Inr:
  assumes "getAddress K s = Inr r"
  shows "length (addressDigits s) = 40" and "list_all isHexDigit (addressDigits s)"
    and "r = ''0x'' @ applyCase (K (map toLowerCase (addressDigits s))) 0 (map toLowerCase (addressDigits s))"
  using assms
  by (auto simp: getAddress_def getChecksumAddress_def Let_def drop_map split: if_splits)

lemma addressDigits_0x: "addressDigits (''0x'' @ ds) = ds"
  by (simp add: addressDigits_def)



lemma TARGET_ok: "\<exists>t. TARGET_SPENDER_ADDRESS K = Inr t"
  by (simp add: TARGET_SPENDER_ADDRESS_def getAddress_def addressDigits_def Let_def mixedCase_def isHexDigit_def isUpperHex_def)


lemma getAddress_idem:
  assumes "getAddress K s = Inr r"
  shows "getAddress K r = Inr r"
proof -
  let ?low = "map toLowerCase (addressDigits s)"
  let ?body = "applyCase (K ?low) 0 ?low"
  have r: "r = ''0x'' @ ?body" and len: "length (addressDigits s) = 40"
    and hex: "list_all isHexDigit (addressDigits s)"
    using getAddress_Inr [OF assms] by auto
  have hexlow: "list_all isHexDigit ?low"
    using hex by (simp add: list_all_iff isHexDigit_toLowerCase)
  have d: "addressDigits r = ?body"
    unfolding r by (rule addressDigits_0x)
  have low: "map toLowerCase ?body = ?low"
    by (simp add: lower_applyCase toLowerCase_idem)
  have x: "map toLowerCase ''0x'' = ''0x''"
    by (simp add: toLowerCase_def)
  have cs: "getChecksumAddress K (''0x'' @ ?body) = ''0x'' @ ?body"
    unfolding getChecksumAddress_def Let_def map_append x
    by (simp only: append.simps drop_Suc_Cons drop_0 numeral_2_eq_2 low)
  have "getAddress K r = (if mixedCase (''0x'' @ ?body) \<and> getChecksumAddress K (''0x'' @ ?body) \<noteq> ''0x'' @ ?body then Inl BadChecksum else Inr (getChecksumAddress K (''0x'' @ ?body)))"
    unfolding getAddress_def d Let_def
    using len hexlow by (simp only: length_applyCase hex_applyCase length_map if_True simp_thms)
  then show ?thesis
    unfolding cs r by simp
qed


lemma lower_getAddress:
  assumes "getAddress K s = Inr r"
  shows "map toLowerCase (drop 2 r) = map toLowerCase (addressDigits s)"
proof -
  have "drop 2 r = applyCase (K (map toLowerCase (addressDigits s))) 0 (map toLowerCase (addressDigits s))"
    unfolding getAddress_Inr(3) [OF assms] by simp
  then show ?thesis
    by (simp add: lower_applyCase toLowerCase_idem)
qed

lemma getAddress_eq_iff:
  assumes "getAddress K s = Inr a" and "getAddress K s' = Inr a'"
  shows "a = a' \<longleftrightarrow> map toLowerCase (addressDigits s) = map toLowerCase (addressDigits s')"
proof
  assume "a = a'"
  then show "map toLowerCase (addressDigits s) = map toLowerCase (addressDigits s')"
    using lower_getAddress [OF assms(1)] lower_getAddress [OF assms(2)] by simp
next
  assume "map toLowerCase (addressDigits s) = map toLowerCase (addressDigits s')"
  then show "a = a'"
    unfolding getAddress_Inr(3) [OF assms(1)] getAddress_Inr(3) [OF assms(2)] by simp
qed

section \<open>Call data: the selector as bytes\<close>













section \<open>The loop over the batches\<close>

lemma promiseAll_ok:
  "(\<forall>h\<in>set hs. f h \<noteq> Rejected) \<Longrightarrow> promiseAll (map f hs) = Inr (map (resolvedBlock \<circ> f) hs)"
proof (induction hs)
  case Nil
  then show ?case by simp
next
  case (Cons h hs)
  then show ?case by (cases "f h") simp_all
qed

lemma promiseAll_fail:
  "(\<exists>h\<in>set hs. f h = Rejected) \<Longrightarrow> promiseAll (map f hs) = Inl RequestFailed"
proof (induction hs)
  case Nil
  then show ?case by simp
next
  case (Cons h hs)
  then show ?case by (cases "f h") auto
qed

lemma processBlocks_append:
  "processBlocks K p reg (xs @ ys) = processBlocks K p (processBlocks K p reg xs) ys"
  by (induction xs arbitrary: reg) simp_all

lemma processTxs_append:
  "processTxs K p reg (xs @ ys) = processTxs K p (processTxs K p reg xs) ys"
  by (induction xs arbitrary: reg) simp_all


lemma scanLoop_done:
  "\<not> cur \<le> L \<Longrightarrow> scanLoop K p f B L cur st = Some (Finished st)"
  by (subst scanLoop.simps) simp

lemma scanLoop_step:
  assumes "cur \<le> L" and "promiseAll (map f [cur..min (cur + B - 1) L]) = Inr blocks"
  shows "scanLoop K p f B L cur st =
         scanLoop K p f B L (cur + B)
           \<lparr>foundTokens = processBlocks K p (foundTokens st) blocks,
            fetchLog = fetchLog st @ [[cur..min (cur + B - 1) L]]\<rparr>"
  using assms by (subst scanLoop.simps) (cases st, simp add: Let_def)

lemma scanLoop_rejected:
  assumes "cur \<le> L" and "promiseAll (map f [cur..min (cur + B - 1) L]) = Inl e"
  shows "scanLoop K p f B L cur st =
         Some (Aborted e \<lparr>foundTokens = foundTokens st,
                           fetchLog = fetchLog st @ [[cur..min (cur + B - 1) L]]\<rparr>)"
  using assms by (subst scanLoop.simps) (cases st, simp add: Let_def)

lemma scanLoop_finishes:
  assumes B: "0 < B"
  shows "(\<forall>h. cur \<le> h \<and> h \<le> L \<longrightarrow> f h \<noteq> Rejected) \<Longrightarrow>
     \<exists>bs. scanLoop K p f B L cur st =
            Some (Finished \<lparr>foundTokens = processBlocks K p (foundTokens st) (map (resolvedBlock \<circ> f) [cur..L]),
                            fetchLog = fetchLog st @ bs\<rparr>)
          \<and> concat bs = [cur..L]
          \<and> (\<forall>b\<in>set bs. b \<noteq> [] \<and> int (length b) \<le> B \<and> b = [hd b..last b])"
proof (induction "nat (L - cur + 1)" arbitrary: cur st rule: less_induct)
  case less
  show ?case
  proof (cases "cur \<le> L")
    case False
    then have "scanLoop K p f B L cur st = Some (Finished st)"
      by (rule scanLoop_done)
    moreover have "[cur..L] = []"
      using False by simp
    ultimately show ?thesis
      by (intro exI [of _ "[]"]) simp
  next
    case True
    define e where "e = min (cur + B - 1) L"
    have e: "cur \<le> e" "e \<le> L"
      using True B by (simp_all add: e_def)
    have ok: "promiseAll (map f [cur..e]) = Inr (map (resolvedBlock \<circ> f) [cur..e])"
      using less.prems e by (intro promiseAll_ok) auto
    let ?st = "\<lparr>foundTokens = processBlocks K p (foundTokens st) (map (resolvedBlock \<circ> f) [cur..e]),
                fetchLog = fetchLog st @ [[cur..e]]\<rparr>"
    have step: "scanLoop K p f B L cur st = scanLoop K p f B L (cur + B) ?st"
      using scanLoop_step [OF True ok [unfolded e_def]] by (simp add: e_def)
    have "nat (L - (cur + B) + 1) < nat (L - cur + 1)"
      using True B by simp
    moreover have "\<forall>h. cur + B \<le> h \<and> h \<le> L \<longrightarrow> f h \<noteq> Rejected"
      using less.prems B by auto
    ultimately obtain bs where
      run: "scanLoop K p f B L (cur + B) ?st =
            Some (Finished \<lparr>foundTokens = processBlocks K p (foundTokens ?st) (map (resolvedBlock \<circ> f) [cur + B..L]),
                            fetchLog = fetchLog ?st @ bs\<rparr>)"
      and cat: "concat bs = [cur + B..L]"
      and each: "\<forall>b\<in>set bs. b \<noteq> [] \<and> int (length b) \<le> B \<and> b = [hd b..last b]"
      using less.hyps [of "cur + B" ?st] by blast
    have split: "[cur..L] = [cur..e] @ [cur + B..L]"
    proof (cases "cur + B - 1 \<le> L")
      case True
      then have "e = cur + B - 1"
        by (simp add: e_def)
      then show ?thesis
        using upto_split2 [of cur e L] e by simp
    next
      case False
      then have "e = L" and "[cur + B..L] = []"
        by (simp_all add: e_def)
      then show ?thesis by simp
    qed
    have batch: "[cur..e] \<noteq> [] \<and> int (length [cur..e]) \<le> B \<and> [cur..e] = [hd [cur..e]..last [cur..e]]"
    proof -
      have "hd [cur..e] = cur"
        using e(1) by (simp add: upto_rec1)
      moreover have "last [cur..e] = e"
        using e(1) by (simp add: upto_rec2)
      moreover have "[cur..e] \<noteq> []"
        using e(1) by simp
      moreover have "int (length [cur..e]) \<le> B"
        using e(1) by (simp add: e_def)
      ultimately show ?thesis by simp
    qed
    show ?thesis
    proof (intro exI [of _ "[cur..e] # bs"] conjI)
      show "scanLoop K p f B L cur st =
            Some (Finished \<lparr>foundTokens = processBlocks K p (foundTokens st) (map (resolvedBlock \<circ> f) [cur..L]),
                            fetchLog = fetchLog st @ [cur..e] # bs\<rparr>)"
        unfolding step run split by (simp add: processBlocks_append)
      show "concat ([cur..e] # bs) = [cur..L]"
        using cat split by simp
      show "\<forall>b\<in>set ([cur..e] # bs). b \<noteq> [] \<and> int (length b) \<le> B \<and> b = [hd b..last b]"
        using each batch by (metis set_ConsD)
    qed
  qed
qed

lemma scanLoop_aborts:
  assumes B: "0 < B"
  shows "(\<exists>h. cur \<le> h \<and> h \<le> L \<and> f h = Rejected) \<Longrightarrow>
     \<exists>st'. scanLoop K p f B L cur st = Some (Aborted RequestFailed st')"
proof (induction "nat (L - cur + 1)" arbitrary: cur st rule: less_induct)
  case less
  then obtain h where h: "cur \<le> h" "h \<le> L" "f h = Rejected"
    by blast
  then have True: "cur \<le> L"
    by simp
  define e where "e = min (cur + B - 1) L"
  show ?case
  proof (cases "\<exists>h\<in>set [cur..e]. f h = Rejected")
    case True
    then have "promiseAll (map f [cur..e]) = Inl RequestFailed"
      by (rule promiseAll_fail)
    then show ?thesis
      using scanLoop_rejected [OF \<open>cur \<le> L\<close>, of f B RequestFailed K p st] by (simp add: e_def)
  next
    case False
    then have ok: "promiseAll (map f [cur..e]) = Inr (map (resolvedBlock \<circ> f) [cur..e])"
      by (intro promiseAll_ok) auto
    have far: "cur + B \<le> h"
      using False h B by (auto simp: e_def min_def split: if_splits)
    let ?st = "\<lparr>foundTokens = processBlocks K p (foundTokens st) (map (resolvedBlock \<circ> f) [cur..e]),
                fetchLog = fetchLog st @ [[cur..e]]\<rparr>"
    have step: "scanLoop K p f B L cur st = scanLoop K p f B L (cur + B) ?st"
      using scanLoop_step [OF \<open>cur \<le> L\<close> ok [unfolded e_def]] by (simp add: e_def)
    have "nat (L - (cur + B) + 1) < nat (L - cur + 1)"
      using \<open>cur \<le> L\<close> B by simp
    moreover have "\<exists>h. cur + B \<le> h \<and> h \<le> L \<and> f h = Rejected"
      using far h by blast
    ultimately show ?thesis
      unfolding step using less.hyps [of "cur + B" ?st] by blast
  qed
qed

lemma scanLoop_total:
  assumes "0 < B"
  shows "\<exists>r. scanLoop K p f B L cur st = Some r"
proof (cases "\<exists>h. cur \<le> h \<and> h \<le> L \<and> f h = Rejected")
  case True
  then show ?thesis
    using scanLoop_aborts [OF assms, of cur L f K p st] by blast
next
  case False
  then have "\<forall>h. cur \<le> h \<and> h \<le> L \<longrightarrow> f h \<noteq> Rejected"
    by blast
  then show ?thesis
    using scanLoop_finishes [OF assms, of cur L f K p st] by blast
qed

lemma scanLoop_registryOf:
  assumes "0 < B"
  shows "map_option registryOf (scanLoop K p f B L cur st) =
         Some (if \<exists>h. cur \<le> h \<and> h \<le> L \<and> f h = Rejected then Inl RequestFailed
               else Inr (processBlocks K p (foundTokens st) (map (resolvedBlock \<circ> f) [cur..L])))"
proof (cases "\<exists>h. cur \<le> h \<and> h \<le> L \<and> f h = Rejected")
  case True
  then show ?thesis
    using scanLoop_aborts [OF assms, of cur L f K p st] by auto
next
  case False
  then have "\<forall>h. cur \<le> h \<and> h \<le> L \<longrightarrow> f h \<noteq> Rejected"
    by blast
  then obtain bs where "scanLoop K p f B L cur st =
      Some (Finished \<lparr>foundTokens = processBlocks K p (foundTokens st) (map (resolvedBlock \<circ> f) [cur..L]),
                      fetchLog = fetchLog st @ bs\<rparr>)"
    using scanLoop_finishes [OF assms, of cur L f K p st] by blast
  then show ?thesis
    using False by simp
qed

lemma batch_interval:
  assumes "cur \<le> e" and "e \<le> cur + B - 1"
  shows "[cur..e] \<noteq> [] \<and> int (length [cur..e]) \<le> B \<and> [cur..e] = [hd [cur..e]..last [cur..e]]"
proof -
  have "hd [cur..e] = cur"
    using assms(1) by (simp add: upto_rec1)
  moreover have "last [cur..e] = e"
    using assms(1) by (simp add: upto_rec2)
  moreover have "[cur..e] \<noteq> []"
    using assms(1) by simp
  moreover have "int (length [cur..e]) \<le> B"
    using assms by simp
  ultimately show ?thesis by simp
qed

lemma scanLoop_aborts_log:
  assumes B: "0 < B"
  shows "(\<exists>h. cur \<le> h \<and> h \<le> L \<and> f h = Rejected) \<Longrightarrow>
     \<exists>st' bs. scanLoop K p f B L cur st = Some (Aborted RequestFailed st')
        \<and> fetchLog st' = fetchLog st @ bs
        \<and> prefix (concat bs) [cur..L]
        \<and> (\<forall>b\<in>set bs. b \<noteq> [] \<and> int (length b) \<le> B \<and> b = [hd b..last b])"
proof (induction "nat (L - cur + 1)" arbitrary: cur st rule: less_induct)
  case less
  then obtain h where h: "cur \<le> h" "h \<le> L" "f h = Rejected"
    by blast
  then have curL: "cur \<le> L"
    by simp
  define e where "e = min (cur + B - 1) L"
  have e: "cur \<le> e" "e \<le> L" "e \<le> cur + B - 1"
    using curL B by (simp_all add: e_def)
  note batch = batch_interval [OF e(1) e(3)]
  show ?case
  proof (cases "\<exists>h\<in>set [cur..e]. f h = Rejected")
    case True
    then have "promiseAll (map f [cur..e]) = Inl RequestFailed"
      by (rule promiseAll_fail)
    then have run: "scanLoop K p f B L cur st =
        Some (Aborted RequestFailed \<lparr>foundTokens = foundTokens st, fetchLog = fetchLog st @ [[cur..e]]\<rparr>)"
      using scanLoop_rejected [OF curL, of f B RequestFailed K p st] by (simp add: e_def)
    have "[cur..L] = [cur..e] @ [e + 1..L]"
      using upto_split2 [of cur e L] e by simp
    then have pre: "prefix (concat [[cur..e]]) [cur..L]"
      by simp
    show ?thesis
    proof (intro exI [of _ "\<lparr>foundTokens = foundTokens st, fetchLog = fetchLog st @ [[cur..e]]\<rparr>"]
        exI [of _ "[[cur..e]]"] conjI)
      show "scanLoop K p f B L cur st =
        Some (Aborted RequestFailed \<lparr>foundTokens = foundTokens st, fetchLog = fetchLog st @ [[cur..e]]\<rparr>)"
        by (rule run)
      show "fetchLog \<lparr>foundTokens = foundTokens st, fetchLog = fetchLog st @ [[cur..e]]\<rparr>
            = fetchLog st @ [[cur..e]]"
        by simp
      show "prefix (concat [[cur..e]]) [cur..L]"
        by (rule pre)
      show "\<forall>b\<in>set [[cur..e]]. b \<noteq> [] \<and> int (length b) \<le> B \<and> b = [hd b..last b]"
        using batch by (metis empty_iff empty_set set_ConsD)
    qed
  next
    case False
    then have ok: "promiseAll (map f [cur..e]) = Inr (map (resolvedBlock \<circ> f) [cur..e])"
      by (intro promiseAll_ok) auto
    have far: "cur + B \<le> h"
      using False h B by (auto simp: e_def min_def split: if_splits)
    then have eq: "e = cur + B - 1"
      using h(2) by (simp add: e_def)
    let ?st = "\<lparr>foundTokens = processBlocks K p (foundTokens st) (map (resolvedBlock \<circ> f) [cur..e]),
                fetchLog = fetchLog st @ [[cur..e]]\<rparr>"
    have step: "scanLoop K p f B L cur st = scanLoop K p f B L (cur + B) ?st"
      using scanLoop_step [OF curL ok [unfolded e_def]] by (simp add: e_def)
    have "nat (L - (cur + B) + 1) < nat (L - cur + 1)"
      using curL B by simp
    moreover have "\<exists>h. cur + B \<le> h \<and> h \<le> L \<and> f h = Rejected"
      using far h by blast
    ultimately obtain st' bs where
      run: "scanLoop K p f B L (cur + B) ?st = Some (Aborted RequestFailed st')"
      and log: "fetchLog st' = fetchLog ?st @ bs"
      and pre: "prefix (concat bs) [cur + B..L]"
      and each: "\<forall>b\<in>set bs. b \<noteq> [] \<and> int (length b) \<le> B \<and> b = [hd b..last b]"
      using less.hyps [of "cur + B" ?st] by blast
    have split: "[cur..L] = [cur..e] @ [cur + B..L]"
      using upto_split2 [of cur e L] e eq by simp
    show ?thesis
    proof (intro exI [of _ st'] exI [of _ "[cur..e] # bs"] conjI)
      show "scanLoop K p f B L cur st = Some (Aborted RequestFailed st')"
        unfolding step by (rule run)
      show "fetchLog st' = fetchLog st @ [cur..e] # bs"
        using log by simp
      show "prefix (concat ([cur..e] # bs)) [cur..L]"
        unfolding split using pre by simp
      show "\<forall>b\<in>set ([cur..e] # bs). b \<noteq> [] \<and> int (length b) \<le> B \<and> b = [hd b..last b]"
        using each batch by (metis set_ConsD)
    qed
  qed
qed

section \<open>The registry\<close>

lemma approvalFilter_normalized:
  "approvalFilter K t d = Inr (Some ta) \<Longrightarrow> getAddress K t = Inr ta"
  by (auto simp: approvalFilter_def Let_def split: if_splits sum.splits)

lemma decodeCandidate_normalized:
  assumes "decodeCandidate K p t txData = Inr (Some ta)"
  shows "getAddress K ta = Inr ta"
proof -
  obtain d where "approvalFilter K t d = Inr (Some ta)"
    using assms by (auto simp: decodeCandidate_def split: sum.splits option.splits)
  then show ?thesis
    using approvalFilter_normalized getAddress_idem by blast
qed

lemma processTx_cases:
  "processTx K p reg tx = reg \<or>
   (\<exists>ta. processTx K p reg tx = reg @ [ta] \<and> ta \<notin> set reg \<and> getAddress K ta = Inr ta)"
  by (auto simp: processTx_def add_def decodeCandidate_normalized split: sum.splits option.splits)

lemma processTx_normalized:
  "normalizedRegistry K reg \<Longrightarrow> normalizedRegistry K (processTx K p reg tx)"
  using processTx_cases [of K p reg tx] by (auto simp: normalizedRegistry_def)

lemma processTx_prefix: "prefix reg (processTx K p reg tx)"
  using processTx_cases [of K p reg tx] by auto

lemma processTxs_normalized:
  "normalizedRegistry K reg \<Longrightarrow> normalizedRegistry K (processTxs K p reg txs)"
  by (induction txs arbitrary: reg) (simp_all add: processTx_normalized)

lemma processTxs_prefix: "prefix reg (processTxs K p reg txs)"
proof (induction txs arbitrary: reg)
  case Nil
  then show ?case by simp
next
  case (Cons tx txs)
  then show ?case
    using processTx_prefix prefix_order.trans by fastforce
qed

lemma processBlock_normalized:
  "normalizedRegistry K reg \<Longrightarrow> normalizedRegistry K (processBlock K p reg blk)"
  by (simp add: processBlock_def processTxs_normalized split: option.splits)

lemma processBlock_prefix: "prefix reg (processBlock K p reg blk)"
  by (simp add: processBlock_def processTxs_prefix split: option.splits)

lemma processBlocks_normalized:
  "normalizedRegistry K reg \<Longrightarrow> normalizedRegistry K (processBlocks K p reg blks)"
  by (induction blks arbitrary: reg) (simp_all add: processBlock_normalized)

lemma processBlocks_prefix: "prefix reg (processBlocks K p reg blks)"
proof (induction blks arbitrary: reg)
  case Nil
  then show ?case by simp
next
  case (Cons blk blks)
  then show ?case
    using processBlock_prefix prefix_order.trans by fastforce
qed

lemma scanLoop_registry:
  assumes "scanLoop K p f B L cur st = Some r"
  shows "\<exists>blks. foundTokens (stateOf r) = processBlocks K p (foundTokens st) blks"
  using assms
proof (induction K p f B L cur st r rule: scanLoop.raw_induct [rotated 1, consumes 1])
  case (1 loop K p f B L cur st r)
  show ?case
  proof (cases "cur \<le> L")
    case False
    then have "r = Finished st"
      using 1(2) by simp
    then show ?thesis
      by (intro exI [of _ "[]"]) simp
  next
    case True
    show ?thesis
    proof (cases "promiseAll (map f [cur..min (cur + B - 1) L])")
      case (Inl e)
      then have "foundTokens (stateOf r) = foundTokens st"
        using 1(2) True by (auto simp: Let_def)
      then show ?thesis
        by (intro exI [of _ "[]"]) simp
    next
      case (Inr blocks)
      let ?st = "st\<lparr>fetchLog := fetchLog st @ [[cur..min (cur + B - 1) L]],
                    foundTokens := processBlocks K p (foundTokens st) blocks\<rparr>"
      have "loop K p f B L (cur + B) ?st = Some r"
        using 1(2) True Inr by (simp add: Let_def)
      then obtain blks where "foundTokens (stateOf r) = processBlocks K p (foundTokens ?st) blks"
        using 1(1) by blast
      then have "foundTokens (stateOf r) = processBlocks K p (foundTokens st) (blocks @ blks)"
        by (simp add: processBlocks_append)
      then show ?thesis by blast
    qed
  qed
qed

lemma normalized_0x:
  assumes "getAddress K a = Inr a"
  shows "addressDigits a = drop 2 a"
proof -
  obtain body where "a = ''0x'' @ body"
    using getAddress_Inr(3) [OF assms] by blast
  then show ?thesis
    by (simp add: addressDigits_def)
qed

lemma normalized_unique:
  assumes "getAddress K a = Inr a" and "getAddress K b = Inr b"
    and "map toLowerCase a = map toLowerCase b"
  shows "a = b"
proof -
  have "map toLowerCase (drop 2 a) = map toLowerCase (drop 2 b)"
    using assms(3) by (simp add: drop_map [symmetric])
  then show ?thesis
    using getAddress_eq_iff [OF assms(1,2)] normalized_0x [OF assms(1)] normalized_0x [OF assms(2)]
    by simp
qed

lemma normalizedRegistry_Nil: "normalizedRegistry K []"
    by (simp add: normalizedRegistry_def)

lemma scanBlocks_normalized: "scanBlocks K p cfg f L = Some r \<Longrightarrow> normalizedRegistry K (foundTokens (stateOf r))"
proof -
    assume "scanBlocks K p cfg f L = Some r"
    then obtain blks where "foundTokens (stateOf r) = processBlocks K p [] blks"
      unfolding scanBlocks_def using scanLoop_registry [of K p f "batchSize cfg" L "startBlock cfg L" "\<lparr>foundTokens = [], fetchLog = []\<rparr>" r] by auto
    then show "normalizedRegistry K (foundTokens (stateOf r))"
      using processBlocks_normalized [OF normalizedRegistry_Nil] by simp
qed

lemma normalizedRegistry_nth: "getAddress K (reg ! i) = Inr (reg ! i)" if "normalizedRegistry K reg" "i < length reg" for i
    using that by (simp add: normalizedRegistry_def list_all_length)

lemma address_enrich: "map address (enrich c xs) = xs" for xs
    by (induction xs) (auto simp: enrichOne_def split: sum.splits)



lemma normalizedRegistry_index:
  assumes n: "normalizedRegistry K reg" and i: "i < length reg" and j: "j < length reg"
      and eq: "map toLowerCase (reg ! i) = map toLowerCase (reg ! j)"
  shows "i = j"
proof -
  have "reg ! i = reg ! j"
    using normalized_unique [OF normalizedRegistry_nth [OF n i] normalizedRegistry_nth [OF n j] eq] .
  moreover have "distinct reg"
    using n by (simp add: normalizedRegistry_def)
  ultimately show "i = j"
    using i j nth_eq_iff_index_eq by blast
qed

lemma scanRecentApprovals_complete:
  assumes run: "scanRecentApprovals K p cfg c url = Some (Inr (ScanComplete results), reqs)"
  shows "\<exists>latest st. getBlockNumber c = Inr latest
           \<and> scanBlocks K p cfg (getBlock c) latest = Some (Finished st)
           \<and> results = enrich c (foundTokens st)"
proof -
    obtain u where u: "connect c url = Inr u"
      using run by (cases "connect c url") (simp_all add: scanRecentApprovals_def)
    obtain latest where latest: "getBlockNumber c = Inr latest"
      using run u by (cases "getBlockNumber c") (simp_all add: scanRecentApprovals_def)
    obtain res where res: "scanBlocks K p cfg (getBlock c) latest = Some res"
      using run u latest
      by (cases "scanBlocks K p cfg (getBlock c) latest") (simp_all add: scanRecentApprovals_def)
    obtain st where st: "res = Finished st"
      using run u latest res by (cases res) (simp_all add: scanRecentApprovals_def)
    have "results = enrich c (foundTokens st)"
      using run u latest res st by (simp add: scanRecentApprovals_def split: if_splits)
    then show ?thesis
      using latest res st by blast
qed

section \<open>The script as a whole\<close>

lemma scanBlocks_registryOf:
  assumes "0 < batchSize cfg"
  shows "map_option registryOf (scanBlocks K p cfg f L) =
         Some (if \<exists>h. startBlock cfg L \<le> h \<and> h \<le> L \<and> f h = Rejected then Inl RequestFailed
               else Inr (processBlocks K p [] (map (resolvedBlock \<circ> f) [startBlock cfg L..L])))"
proof -
  have e: "foundTokens \<lparr>foundTokens = [], fetchLog = []\<rparr> = []"
    by simp
  show ?thesis
    unfolding scanBlocks_def
    using scanLoop_registryOf [OF assms, of K p f L "startBlock cfg L" "\<lparr>foundTokens = [], fetchLog = []\<rparr>"]
    unfolding e .
qed

text \<open>What the script reports once the loop has ended.\<close>

lemma scanRecentApprovals_report:
  assumes "connect c url = Inr u" and "getBlockNumber c = Inr latest"
    and "scanBlocks K p cfg (getBlock c) latest = Some r"
  shows "map_option fst (scanRecentApprovals K p cfg c url) =
         Some (Inr (case registryOf r of
                      Inl e \<Rightarrow> UnexpectedError
                    | Inr reg \<Rightarrow> if reg = [] then NoApprovals else ScanComplete (enrich c reg)))"
  using assms by (cases r) (simp_all add: scanRecentApprovals_def)

lemma scanRecentApprovals_early:
  "connect c url = Inl e \<Longrightarrow>
     scanRecentApprovals K p cfg c url = Some (Inr ConnectError, [Connect url])"
  "connect c url = Inr u \<Longrightarrow> getBlockNumber c = Inl e \<Longrightarrow>
     scanRecentApprovals K p cfg c url = Some (Inr UnexpectedError, [Connect url, GetBlockNumber])"
  by (simp_all add: scanRecentApprovals_def)

lemma scanBlocks_total:
  assumes "0 < batchSize cfg"
  shows "\<exists>r. scanBlocks K p cfg f L = Some r"
  unfolding scanBlocks_def by (rule scanLoop_total [OF assms])

lemma scanRecentApprovals_resolves:
  assumes "0 < batchSize cfg"
  shows "\<exists>oc reqs. scanRecentApprovals K p cfg c url = Some (Inr oc, reqs) \<and> hd reqs = Connect url
           \<and> reqs \<noteq> []"
proof (cases "connect c url")
  case (Inl e)
  then show ?thesis
    by (simp add: scanRecentApprovals_early)
next
  case u: (Inr u)
  show ?thesis
  proof (cases "getBlockNumber c")
    case (Inl e)
    then show ?thesis
      using u by (simp add: scanRecentApprovals_early)
  next
    case (Inr latest)
    obtain r where r: "scanBlocks K p cfg (getBlock c) latest = Some r"
      using scanBlocks_total [OF assms] by blast
    show ?thesis
      using u Inr r by (cases r) (simp_all add: scanRecentApprovals_def)
  qed
qed

lemma scanRecentApprovals_never_rejects:
  "scanRecentApprovals K p cfg c url \<noteq> Some (Inl e, reqs)"
proof (cases "connect c url")
  case (Inl e)
  then show ?thesis
    by (simp add: scanRecentApprovals_early)
next
  case u: (Inr u)
  show ?thesis
  proof (cases "getBlockNumber c")
    case (Inl e)
    then show ?thesis
      using u by (simp add: scanRecentApprovals_early)
  next
    case (Inr latest)
    show ?thesis
    proof (cases "scanBlocks K p cfg (getBlock c) latest")
      case None
      then show ?thesis
        using u Inr by (simp add: scanRecentApprovals_def)
    next
      case (Some r)
      then show ?thesis
        using u Inr by (cases r) (simp_all add: scanRecentApprovals_def)
    qed
  qed
qed

lemma configured:
  assumes "u \<noteq> []" and "u \<noteq> ''YOUR_BSC_RPC_URL''"
  shows "main K p cfg c (Some u) =
     (case scanRecentApprovals K p cfg c u of
           None \<Rightarrow> None
         | Some (Inl err, reqs) \<Rightarrow> Some \<lparr>requests = reqs, report = ScriptFailed, exitCode = 1\<rparr>
         | Some (Inr oc, reqs) \<Rightarrow> Some \<lparr>requests = reqs, report = oc, exitCode = 0\<rparr>)"
proof -
  have "BSC_RPC_URL (Some u) = u"
    using assms(1) by (simp add: BSC_RPC_URL_def)
  then show ?thesis
    using assms unfolding main_def by (simp only: if_False simp_thms)
qed

lemma not_configured:
  assumes "env = None \<or> env = Some [] \<or> env = Some ''YOUR_BSC_RPC_URL''"
  shows "main K p cfg c env = Some \<lparr>requests = [], report = NotConfigured, exitCode = 0\<rparr>"
proof -
  have "BSC_RPC_URL env = ''YOUR_BSC_RPC_URL''"
    using assms by (auto simp: BSC_RPC_URL_def)
  then show ?thesis
    unfolding main_def by (simp only: if_True simp_thms)
qed

section \<open>Scans with a positive batch size\<close>

text \<open>The scan returns; the heights it requests are an initial part of the window, in
  batches that are non-empty intervals of at most \<open>batchSize\<close> heights, and the whole
  window when no fetch is rejected.\<close>

lemma scan_visits_window_in_batches:
  assumes "0 < batchSize cfg"
  shows "startBlock cfg L = max 0 (L - blocksToScan cfg + 1) \<and>
    (\<exists>r. scanBlocks K p cfg fetchBlock L = Some r
       \<and> prefix (concat (fetchLog (stateOf r))) [startBlock cfg L..L]
       \<and> (\<forall>b\<in>set (fetchLog (stateOf r)).
             b \<noteq> [] \<and> int (length b) \<le> batchSize cfg \<and> b = [hd b..last b])
       \<and> ((\<forall>h. startBlock cfg L \<le> h \<and> h \<le> L \<longrightarrow> fetchBlock h \<noteq> Rejected) \<longrightarrow>
            r = Finished (stateOf r)
            \<and> concat (fetchLog (stateOf r)) = [startBlock cfg L..L]
            \<and> distinct (concat (fetchLog (stateOf r)))
            \<and> set (concat (fetchLog (stateOf r))) = {startBlock cfg L..L}))"
proof (intro conjI)
  show "startBlock cfg L = max 0 (L - blocksToScan cfg + 1)"
    by (simp add: startBlock_def)
  let ?init = "\<lparr>foundTokens = [], fetchLog = []\<rparr>"
  let ?s = "startBlock cfg L"
  show "\<exists>r. scanBlocks K p cfg fetchBlock L = Some r
       \<and> prefix (concat (fetchLog (stateOf r))) [?s..L]
       \<and> (\<forall>b\<in>set (fetchLog (stateOf r)).
             b \<noteq> [] \<and> int (length b) \<le> batchSize cfg \<and> b = [hd b..last b])
       \<and> ((\<forall>h. ?s \<le> h \<and> h \<le> L \<longrightarrow> fetchBlock h \<noteq> Rejected) \<longrightarrow>
            r = Finished (stateOf r)
            \<and> concat (fetchLog (stateOf r)) = [?s..L]
            \<and> distinct (concat (fetchLog (stateOf r)))
            \<and> set (concat (fetchLog (stateOf r))) = {?s..L})"
  proof (cases "\<exists>h. ?s \<le> h \<and> h \<le> L \<and> fetchBlock h = Rejected")
    case True
    then obtain st' bs where run: "scanBlocks K p cfg fetchBlock L = Some (Aborted RequestFailed st')"
      and log: "fetchLog st' = bs"
      and pre: "prefix (concat bs) [?s..L]"
      and each: "\<forall>b\<in>set bs. b \<noteq> [] \<and> int (length b) \<le> batchSize cfg \<and> b = [hd b..last b]"
      using scanLoop_aborts_log [OF assms, of ?s L fetchBlock K p ?init]
      unfolding scanBlocks_def by auto
    show ?thesis
      using True run log pre each by (intro exI [of _ "Aborted RequestFailed st'"]) auto
  next
    case False
    then have ok: "\<forall>h. ?s \<le> h \<and> h \<le> L \<longrightarrow> fetchBlock h \<noteq> Rejected"
      by blast
    obtain st bs where run: "scanBlocks K p cfg fetchBlock L = Some (Finished st)"
      and log: "fetchLog st = bs"
      and cat: "concat bs = [?s..L]"
      and each: "\<forall>b\<in>set bs. b \<noteq> [] \<and> int (length b) \<le> batchSize cfg \<and> b = [hd b..last b]"
      using scanLoop_finishes [OF assms, of ?s L fetchBlock K p ?init] ok
      unfolding scanBlocks_def by auto
    have d: "distinct (concat bs)" and s: "set (concat bs) = {?s..L}"
      unfolding cat by simp_all
    show ?thesis
    proof (intro exI [of _ "Finished st"] conjI impI)
      show "scanBlocks K p cfg fetchBlock L = Some (Finished st)"
        by (rule run)
      show "prefix (concat (fetchLog (stateOf (Finished st)))) [?s..L]"
        using log cat by simp
      show "\<forall>b\<in>set (fetchLog (stateOf (Finished st))).
             b \<noteq> [] \<and> int (length b) \<le> batchSize cfg \<and> b = [hd b..last b]"
        using log each by simp
      show "Finished st = Finished (stateOf (Finished st))"
        by simp
      show "concat (fetchLog (stateOf (Finished st))) = [?s..L]"
        using log cat by simp
      show "distinct (concat (fetchLog (stateOf (Finished st))))"
        using log d by (simp del: distinct_concat)
      show "set (concat (fetchLog (stateOf (Finished st)))) = {?s..L}"
        using log s by (simp del: set_concat)
    qed
  qed
qed

text \<open>Two batch sizes end a scan alike: at a rejected fetch, or with the same registry and
  the same report.\<close>

lemma batch_size_irrelevant:
  assumes "0 < batchSize cfg1" and "0 < batchSize cfg2"
    and "blocksToScan cfg1 = blocksToScan cfg2"
  shows "(\<exists>r1 r2. scanBlocks K p cfg1 f L = Some r1 \<and> scanBlocks K p cfg2 f L = Some r2
            \<and> registryOf r1 = registryOf r2)
    \<and> (\<exists>o1 o2. scanRecentApprovals K p cfg1 c url = Some o1
            \<and> scanRecentApprovals K p cfg2 c url = Some o2 \<and> fst o1 = fst o2)"
proof
  have start: "startBlock cfg1 L = startBlock cfg2 L" for L
    using assms(3) by (simp add: startBlock_def)
  have same: "map_option registryOf (scanBlocks K p cfg1 f L) =
              map_option registryOf (scanBlocks K p cfg2 f L)" for f L
    unfolding scanBlocks_registryOf [OF assms(1)] scanBlocks_registryOf [OF assms(2)] start ..
  have total: "\<exists>r. scanBlocks K p cfg f L = Some r" if "0 < batchSize cfg" for cfg f L
    using scanBlocks_registryOf [OF that, of K p f L] by (cases "scanBlocks K p cfg f L") simp_all
  show "\<exists>r1 r2. scanBlocks K p cfg1 f L = Some r1 \<and> scanBlocks K p cfg2 f L = Some r2
            \<and> registryOf r1 = registryOf r2"
    using same [of f L] total [OF assms(1), of f L] total [OF assms(2), of f L] by auto
  show "\<exists>o1 o2. scanRecentApprovals K p cfg1 c url = Some o1
            \<and> scanRecentApprovals K p cfg2 c url = Some o2 \<and> fst o1 = fst o2"
  proof (cases "connect c url")
    case (Inl e)
    then show ?thesis
      by (simp add: scanRecentApprovals_early)
  next
    case u: (Inr u)
    show ?thesis
    proof (cases "getBlockNumber c")
      case (Inl e)
      then show ?thesis
        using u by (simp add: scanRecentApprovals_early)
    next
      case (Inr latest)
      obtain r1 r2 where r: "scanBlocks K p cfg1 (getBlock c) latest = Some r1"
        "scanBlocks K p cfg2 (getBlock c) latest = Some r2"
        using total [OF assms(1)] total [OF assms(2)] by blast
      have eq: "registryOf r1 = registryOf r2"
        using same [of "getBlock c" latest] r by simp
      let ?report = "Inr (case registryOf r2 of
                      Inl e \<Rightarrow> UnexpectedError
                    | Inr reg \<Rightarrow> if reg = [] then NoApprovals else ScanComplete (enrich c reg))"
      have e1: "map_option fst (scanRecentApprovals K p cfg1 c url) = Some ?report"
        using scanRecentApprovals_report [OF u Inr r(1)] unfolding eq .
      have e2: "map_option fst (scanRecentApprovals K p cfg2 c url) = Some ?report"
        by (rule scanRecentApprovals_report [OF u Inr r(2)])
      obtain o1 where o1: "scanRecentApprovals K p cfg1 c url = Some o1" "fst o1 = ?report"
        using e1 by (cases "scanRecentApprovals K p cfg1 c url") simp_all
      obtain o2 where o2: "scanRecentApprovals K p cfg2 c url = Some o2" "fst o2 = ?report"
        using e2 by (cases "scanRecentApprovals K p cfg2 c url") simp_all
      show ?thesis
        using o1 o2 by simp
    qed
  qed
qed

text \<open>The promise of \<^verbatim>\<open>scanRecentApprovals\<close> is never rejected, and the exit code is 0.\<close>

lemma exit_code_always_zero:
  assumes "0 < batchSize cfg"
  shows "(\<exists>oc reqs. scanRecentApprovals K p cfg c url = Some (Inr oc, reqs))
    \<and> (\<exists>r. main K p cfg c env = Some r \<and> exitCode r = 0)"
proof
  show "\<exists>oc reqs. scanRecentApprovals K p cfg c url = Some (Inr oc, reqs)"
    using scanRecentApprovals_resolves [OF assms] by blast
  show "\<exists>r. main K p cfg c env = Some r \<and> exitCode r = 0"
  proof (cases "env = None \<or> env = Some [] \<or> env = Some ''YOUR_BSC_RPC_URL''")
    case True
    then show ?thesis
      by (simp add: not_configured)
  next
    case False
    then obtain u where u: "env = Some u" "u \<noteq> []" "u \<noteq> ''YOUR_BSC_RPC_URL''"
      by (cases env) auto
    obtain oc reqs where "scanRecentApprovals K p cfg c u = Some (Inr oc, reqs)"
      using scanRecentApprovals_resolves [OF assms] by blast
    then show ?thesis
      unfolding u(1) configured [OF u(2,3)] by simp
  qed
qed

section \<open>The claims\<close>

text \<open>
  C1. The scan is to start at \<open>max 0 (L - window + 1)\<close> and to request exactly the heights
  from there to \<open>L\<close>. With latest height 7, a window of 5 and batches of 2 the start is 3;
  when the fetch of height 4 is rejected the scan stops after the batch of heights 3 and 4,
  and heights 5 to 7 are never requested. The rejected fetch stops the scan as in C6; a scan
  in which no fetch is rejected does request the whole range.
\<close>

theorem rejected_fetch_leaves_heights_unvisited:
  "startBlock smallConfig 7 = 3
   \<and> scanBlocks sampleHash sampleParser smallConfig (sampleFetch(4 := Rejected)) 7 =
       Some (Aborted RequestFailed \<lparr>foundTokens = [], fetchLog = [[3, 4]]\<rparr>)
   \<and> concat [[3, 4]] \<noteq> [3..(7::int)]"
  by code_simp




text \<open>
  C3. For a decoded candidate whose destination is an address, the filter yields the
  normalised destination (never the spender, never anything else) exactly when the decoded
  name is \<^verbatim>\<open>approve\<close> and the normalised spender is the normalised target spender.
  Two spender strings that \<^verbatim>\<open>getAddress\<close> accepts and that have the same digits up to
  letter case give the same result. The registry then gains the destination, or stays as
  it is.
\<close>

theorem approvalFilter_iff:
  assumes "getAddress K txTo = Inr tokenAddress"
  shows "(approvalFilter K txTo d = Inr (Some tokenAddress)
            \<longleftrightarrow> d_name d = ''approve'' \<and> getAddress K (d_spender d) = TARGET_SPENDER_ADDRESS K)
    \<and> (\<forall>a. approvalFilter K txTo d = Inr (Some a) \<longrightarrow> a = tokenAddress)
    \<and> (getAddress K s = Inr a \<and> getAddress K s' = Inr a'
          \<and> map toLowerCase (addressDigits s) = map toLowerCase (addressDigits s')
        \<longrightarrow> approvalFilter K txTo (d\<lparr>d_spender := s\<rparr>) = approvalFilter K txTo (d\<lparr>d_spender := s'\<rparr>))
    \<and> (selectorMatches tx \<and> tx_to tx = Some txTo \<and> p (tx_data tx) = Inr (Some d)
        \<longrightarrow> processTx K p reg tx =
              (if d_name d = ''approve'' \<and> getAddress K (d_spender d) = TARGET_SPENDER_ADDRESS K
               then add reg tokenAddress else reg))"
proof -
  obtain target where target: "TARGET_SPENDER_ADDRESS K = Inr target"
    using TARGET_ok by blast
  have flt: "approvalFilter K txTo d =
      (if d_name d = ''approve'' then
         (case getAddress K (d_spender d) of Inl e \<Rightarrow> Inl e
          | Inr sp \<Rightarrow> if sp = target then Inr (Some tokenAddress) else Inr None)
       else Inr None)" for d
    using assms target by (auto simp: approvalFilter_def Let_def split: sum.splits)
  have one: "approvalFilter K txTo d = Inr (Some tokenAddress)
            \<longleftrightarrow> d_name d = ''approve'' \<and> getAddress K (d_spender d) = TARGET_SPENDER_ADDRESS K"
    unfolding flt target by (auto split: sum.splits)
  have two: "\<forall>a. approvalFilter K txTo d = Inr (Some a) \<longrightarrow> a = tokenAddress"
    unfolding flt by (auto split: sum.splits if_splits)
  have three: "getAddress K s = Inr a \<and> getAddress K s' = Inr a'
          \<and> map toLowerCase (addressDigits s) = map toLowerCase (addressDigits s')
        \<longrightarrow> approvalFilter K txTo (d\<lparr>d_spender := s\<rparr>) = approvalFilter K txTo (d\<lparr>d_spender := s'\<rparr>)"
  proof (intro impI, elim conjE)
    assume s: "getAddress K s = Inr a" and s': "getAddress K s' = Inr a'"
      and low: "map toLowerCase (addressDigits s) = map toLowerCase (addressDigits s')"
    have "a = a'"
      using getAddress_eq_iff [OF s s'] low by simp
    then show "approvalFilter K txTo (d\<lparr>d_spender := s\<rparr>) = approvalFilter K txTo (d\<lparr>d_spender := s'\<rparr>)"
      unfolding flt using s s' by simp
  qed
  have four: "selectorMatches tx \<and> tx_to tx = Some txTo \<and> p (tx_data tx) = Inr (Some d)
        \<longrightarrow> processTx K p reg tx =
              (if d_name d = ''approve'' \<and> getAddress K (d_spender d) = TARGET_SPENDER_ADDRESS K
               then add reg tokenAddress else reg)"
  proof (intro impI, elim conjE)
    assume m: "selectorMatches tx" and t: "tx_to tx = Some txTo"
      and dec: "p (tx_data tx) = Inr (Some d)"
    have step: "processTx K p reg tx =
        (case approvalFilter K txTo d of Inl e \<Rightarrow> reg | Inr None \<Rightarrow> reg
         | Inr (Some ta) \<Rightarrow> if ta \<notin> set reg then add reg ta else reg)"
      using m t dec by (simp add: processTx_def decodeCandidate_def)
    show "processTx K p reg tx =
              (if d_name d = ''approve'' \<and> getAddress K (d_spender d) = TARGET_SPENDER_ADDRESS K
               then add reg tokenAddress else reg)"
    proof (cases "d_name d = ''approve'' \<and> getAddress K (d_spender d) = TARGET_SPENDER_ADDRESS K")
      case True
      then have "approvalFilter K txTo d = Inr (Some tokenAddress)"
        using one by simp
      then show ?thesis
        using True step by (simp add: add_def)
    next
      case False
      then have "approvalFilter K txTo d \<noteq> Inr (Some a)" for a
        using one two by blast
      then show ?thesis
        using False step by (auto split: sum.splits option.splits)
    qed
  qed
  show ?thesis
    using one two three four by blast
qed


theorem approvalFilter_iff_witness:
  "approvalFilter sampleHash sampleToken sampleCall = Inr (Some ''0x55d398326F99059Ff775485246999027b3197955'')
   \<and> approvalFilter sampleHash sampleToken (sampleCall\<lparr>d_spender := ''0xB300000B72DEAEB607A12D5F54773D1C19C7028D''\<rparr>)
       = approvalFilter sampleHash sampleToken sampleCall
   \<and> processTx sampleHash sampleParser [] approveTx = [''0x55d398326F99059Ff775485246999027b3197955'']"
proof -
  let ?lower = "''0xb300000b72deaeb607a12d5f54773d1c19c7028d''"
  let ?upper = "''0xB300000B72DEAEB607A12D5F54773D1C19C7028D''"
  let ?target = "''0xB300000b72deAeb607A12D5f54773d1c19c7028D''"
  let ?token = "''0x55d398326F99059Ff775485246999027b3197955''"
  have to: "getAddress sampleHash sampleToken = Inr ?token"
    by code_simp
  have lo: "getAddress sampleHash ?lower = Inr ?target"
    by code_simp
  have up: "getAddress sampleHash ?upper = Inr ?target"
    by code_simp
  have low: "map toLowerCase (addressDigits ?upper) = map toLowerCase (addressDigits ?lower)"
    by code_simp
  have m: "selectorMatches approveTx"
    by code_simp
  have t: "tx_to approveTx = Some sampleToken"
    by code_simp
  have dec: "sampleParser (tx_data approveTx) = Inr (Some sampleCall)"
    by code_simp
  have nm: "d_name sampleCall = ''approve''"
    by (simp add: sampleCall_def)
  have sp: "d_spender sampleCall = ?lower"
    by (simp add: sampleCall_def)
  have same: "sampleCall\<lparr>d_spender := ?lower\<rparr> = sampleCall"
    by (simp add: sampleCall_def)
  have tg: "getAddress sampleHash (d_spender sampleCall) = TARGET_SPENDER_ADDRESS sampleHash"
    unfolding sp TARGET_SPENDER_ADDRESS_def ..
  note T = approvalFilter_iff [OF to, where d = sampleCall and s = ?upper and a = ?target
        and s' = ?lower and a' = ?target and tx = approveTx and p = sampleParser and reg = "[]"]
  have one: "approvalFilter sampleHash sampleToken sampleCall = Inr (Some ?token)"
    using T [THEN conjunct1] nm tg by blast
  have "approvalFilter sampleHash sampleToken (sampleCall\<lparr>d_spender := ?upper\<rparr>)
      = approvalFilter sampleHash sampleToken (sampleCall\<lparr>d_spender := ?lower\<rparr>)"
    using T [THEN conjunct2, THEN conjunct2, THEN conjunct1] up lo low by blast
  then have three: "approvalFilter sampleHash sampleToken (sampleCall\<lparr>d_spender := ?upper\<rparr>)
      = approvalFilter sampleHash sampleToken sampleCall"
    unfolding same .
  have "processTx sampleHash sampleParser [] approveTx =
      (if d_name sampleCall = ''approve''
          \<and> getAddress sampleHash (d_spender sampleCall) = TARGET_SPENDER_ADDRESS sampleHash
       then add [] ?token else [])"
    using T [THEN conjunct2, THEN conjunct2, THEN conjunct2] m t dec by blast
  then have four: "processTx sampleHash sampleParser [] approveTx = [?token]"
    using nm tg by (simp only: simp_thms if_True if_False add_def list.set empty_iff append_Nil)
  show ?thesis
    using one three four by blast
qed

text \<open>
  C4. The registry starts empty and every entry is a checksum-normalised address, present
  once. Each transaction either leaves it as it is or appends one entry, so nothing is ever
  removed. At every point, and in the state a scan ends with, no two positions hold
  addresses that are equal up to letter case, or that normalise to the same address. The
  records of a complete scan are read from the registry the finished loop returned.
\<close>

theorem registry_unique_and_growing:
  "normalizedRegistry K []
   \<and> (normalizedRegistry K reg \<longrightarrow>
        normalizedRegistry K (processTx K p reg tx) \<and> prefix reg (processTx K p reg tx))
   \<and> (scanBlocks K p cfg f L = Some r \<longrightarrow> normalizedRegistry K (foundTokens (stateOf r)))
   \<and> (normalizedRegistry K reg \<and> i < length reg \<and> j < length reg
        \<and> map toLowerCase (reg ! i) = map toLowerCase (reg ! j) \<longrightarrow> i = j)
   \<and> (normalizedRegistry K reg \<and> i < length reg \<and> j < length reg
        \<and> getAddress K (reg ! i) = getAddress K (reg ! j) \<longrightarrow> i = j)
   \<and> (scanRecentApprovals K p cfg c url = Some (Inr (ScanComplete results), reqs) \<longrightarrow>
        (\<exists>latest st. getBlockNumber c = Inr latest
           \<and> scanBlocks K p cfg (getBlock c) latest = Some (Finished st)
           \<and> map address results = foundTokens st))"
proof (intro conjI impI)
  show "normalizedRegistry K []"
    by (rule normalizedRegistry_Nil)
next
  assume "normalizedRegistry K reg"
  then show "normalizedRegistry K (processTx K p reg tx)"
    by (rule processTx_normalized)
next
  show "prefix reg (processTx K p reg tx)"
    by (rule processTx_prefix)
next
  assume "scanBlocks K p cfg f L = Some r"
  then show "normalizedRegistry K (foundTokens (stateOf r))"
    by (rule scanBlocks_normalized)
next
  assume "normalizedRegistry K reg \<and> i < length reg \<and> j < length reg
        \<and> map toLowerCase (reg ! i) = map toLowerCase (reg ! j)"
  then show "i = j"
    by (elim conjE) (rule normalizedRegistry_index)
next
  assume a: "normalizedRegistry K reg \<and> i < length reg \<and> j < length reg
        \<and> getAddress K (reg ! i) = getAddress K (reg ! j)"
  then have n: "normalizedRegistry K reg" and i: "i < length reg" and j: "j < length reg"
    and eq: "getAddress K (reg ! i) = getAddress K (reg ! j)"
    by blast+
  have "Inr (reg ! i) = getAddress K (reg ! i)"
    by (rule normalizedRegistry_nth [OF n i, symmetric])
  also have "\<dots> = getAddress K (reg ! j)"
    by (rule eq)
  also have "\<dots> = Inr (reg ! j)"
    by (rule normalizedRegistry_nth [OF n j])
  finally have "reg ! i = reg ! j"
    by (rule Inr_inject)
  then have "map toLowerCase (reg ! i) = map toLowerCase (reg ! j)"
    by (rule arg_cong)
  then show "i = j"
    using n i j by (rule normalizedRegistry_index [rotated 3])
next
  assume "scanRecentApprovals K p cfg c url = Some (Inr (ScanComplete results), reqs)"
  then obtain latest st where "getBlockNumber c = Inr latest"
      and "scanBlocks K p cfg (getBlock c) latest = Some (Finished st)"
      and "results = enrich c (foundTokens st)"
    using scanRecentApprovals_complete by blast
  then show "\<exists>latest st. getBlockNumber c = Inr latest
           \<and> scanBlocks K p cfg (getBlock c) latest = Some (Finished st)
           \<and> map address results = foundTokens st"
    using address_enrich by blast
qed

theorem registry_unique_and_growing_witness:
  "normalizedRegistry sampleHash [''0x55d398326F99059Ff775485246999027b3197955'']
   \<and> processTx sampleHash sampleParser [''0x55d398326F99059Ff775485246999027b3197955''] upperCaseTx
       = [''0x55d398326F99059Ff775485246999027b3197955'']
   \<and> normalizedRegistry sampleHash
        (foundTokens (stateOf (Finished \<lparr>foundTokens = [''0x55d398326F99059Ff775485246999027b3197955''],
                                        fetchLog = [[3, 4], [5, 6], [7]]\<rparr>)))"
proof -
  let ?token = "''0x55d398326F99059Ff775485246999027b3197955''"
  let ?r = "Finished \<lparr>foundTokens = [?token], fetchLog = [[3, 4], [5, 6], [7]]\<rparr>"
  have n: "normalizedRegistry sampleHash [?token]"
    by code_simp
  have tx: "processTx sampleHash sampleParser [?token] upperCaseTx = [?token]"
    by code_simp
  have run: "scanBlocks sampleHash sampleParser smallConfig sampleFetch 7 = Some ?r"
    by code_simp
  note T = registry_unique_and_growing [where K = sampleHash and reg = "[?token]"
      and p = sampleParser and tx = upperCaseTx and cfg = smallConfig and f = sampleFetch
      and L = 7 and r = ?r]
  have "normalizedRegistry sampleHash (foundTokens (stateOf ?r))"
    using T [THEN conjunct2, THEN conjunct2, THEN conjunct1] run by blast
  then show ?thesis
    using n tx by blast
qed

text \<open>
  C5. Two scans of the same chain that differ only in the batch size are to end with the
  same registry. On the window 3..7, with an approval in block 3 and the fetch of height 6
  rejected: in batches of 2 the scan has found the token when it stops; in one batch of 10
  it stops before any block is processed, its registry empty. The rejected fetch stops the
  scan as in C6; when no fetch is rejected the two registries are equal.
\<close>

theorem batch_size_changes_tokens_found:
  "scanBlocks sampleHash sampleParser smallConfig earlyFetch 7 =
     Some (Aborted RequestFailed
            \<lparr>foundTokens = [''0x55d398326F99059Ff775485246999027b3197955''],
             fetchLog = [[3, 4], [5, 6]]\<rparr>)
   \<and> scanBlocks sampleHash sampleParser wideConfig earlyFetch 7 =
     Some (Aborted RequestFailed \<lparr>foundTokens = [], fetchLog = [[3, 4, 5, 6, 7]]\<rparr>)
   \<and> blocksToScan smallConfig = blocksToScan wideConfig"
  by code_simp

text \<open>
  C6. A block fetch that fails or yields \<^verbatim>\<open>null\<close> is to count as a block without
  transactions, and the scan is to go on. On the window 3..7 in batches of 2, with the
  approval in block 6: when the fetch of height 4 resolves to \<^verbatim>\<open>null\<close> the scan finishes
  and finds the token; when it is rejected, \<^verbatim>\<open>Promise.all\<close> throws, the scan stops after
  the first batch, heights 5 to 7 are never requested and the script reports an unexpected
  error.
\<close>

theorem rejected_fetch_aborts_scan:
  "scanBlocks sampleHash sampleParser smallConfig (sampleFetch(4 := Resolved None)) 7 =
     Some (Finished \<lparr>foundTokens = [''0x55d398326F99059Ff775485246999027b3197955''],
                     fetchLog = [[3, 4], [5, 6], [7]]\<rparr>)
   \<and> scanBlocks sampleHash sampleParser smallConfig (sampleFetch(4 := Rejected)) 7 =
     Some (Aborted RequestFailed \<lparr>foundTokens = [], fetchLog = [[3, 4]]\<rparr>)
   \<and> main sampleHash sampleParser smallConfig (sampleChain\<lparr>getBlock := sampleFetch(4 := Rejected)\<rparr>)
        (Some ''http://localhost:8545'') =
     Some \<lparr>requests = [Connect ''http://localhost:8545'', GetBlockNumber, GetBlock 3, GetBlock 4],
           report = UnexpectedError, exitCode = 0\<rparr>"
  by code_simp

text \<open>
  C7. A transaction whose call data fails to decode leaves the registry as it was, and the
  transactions before and after it in the block are processed as if it were not there:
  the failure ends at the \<^verbatim>\<open>catch\<close> of line 94.
\<close>

theorem decode_failure_skips_transaction:
  assumes "p (tx_data tx) = Inl e"
  shows "processTx K p reg tx = reg
    \<and> processTxs K p reg (pre @ tx # post) = processTxs K p reg (pre @ post)
    \<and> processBlock K p reg (Some \<lparr>block_number = n, prefetchedTransactions = pre @ tx # post\<rparr>)
        = processBlock K p reg (Some \<lparr>block_number = n, prefetchedTransactions = pre @ post\<rparr>)"
proof -
  have one: "processTx K p reg tx = reg" for reg
    using assms by (simp add: processTx_def decodeCandidate_def split: option.splits)
  have two: "processTxs K p reg (pre @ tx # post) = processTxs K p reg (pre @ post)"
    by (simp add: processTxs_append one)
  have three: "processBlock K p reg (Some \<lparr>block_number = n, prefetchedTransactions = pre @ tx # post\<rparr>)
        = processBlock K p reg (Some \<lparr>block_number = n, prefetchedTransactions = pre @ post\<rparr>)"
  proof (cases "pre @ post = []")
    case True
    then show ?thesis
      using two by (simp add: processBlock_def one)
  next
    case False
    then show ?thesis
      using two by (simp add: processBlock_def)
  qed
  show ?thesis
    using one two three by blast
qed

theorem decode_failure_skips_transaction_witness:
  "selectorMatches malformedTx
   \<and> processTx sampleHash sampleParser [] malformedTx = []
   \<and> processTxs sampleHash sampleParser [] ([] @ malformedTx # [approveTx])
       = processTxs sampleHash sampleParser [] ([] @ [approveTx])
   \<and> processTxs sampleHash sampleParser [] [approveTx] = [''0x55d398326F99059Ff775485246999027b3197955'']"
proof -
  have m: "selectorMatches malformedTx"
    by code_simp
  have bad: "sampleParser (tx_data malformedTx) = Inl DecodeError"
    by code_simp
  have ok: "processTxs sampleHash sampleParser [] [approveTx] = [''0x55d398326F99059Ff775485246999027b3197955'']"
    by code_simp
  note T = decode_failure_skips_transaction [where p = sampleParser and tx = malformedTx
      and e = DecodeError and K = sampleHash and reg = "[]" and pre = "[]" and post = "[approveTx]",
      OF bad]
  show ?thesis
    using T [THEN conjunct1] T [THEN conjunct2, THEN conjunct1] m ok by blast
qed

text \<open>
  C8. Enrichment yields one record for each registry entry, in the registry's order: its
  address is the entry, its name is what \<^verbatim>\<open>name()\<close> returned, or the marker
  \<^verbatim>\<open><Error fetching name>\<close> when the call failed. The records of a list are the records
  of its parts, so a failing token changes no other record. A finished scan with a
  non-empty registry reports exactly these records.
\<close>

theorem enrich_one_record_per_entry:
  "map address (enrich c reg) = reg
   \<and> map name (enrich c reg)
       = map (\<lambda>a. case callName c a of Inl e \<Rightarrow> ''<Error fetching name>'' | Inr n \<Rightarrow> n) reg
   \<and> enrich c (xs @ ys) = enrich c xs @ enrich c ys
   \<and> (connect c url = Inr u \<and> getBlockNumber c = Inr latest
        \<and> scanBlocks K p cfg (getBlock c) latest = Some (Finished st) \<and> foundTokens st \<noteq> []
       \<longrightarrow> map_option fst (scanRecentApprovals K p cfg c url)
             = Some (Inr (ScanComplete (enrich c (foundTokens st)))))"
proof (intro conjI impI)
  show "map address (enrich c reg) = reg"
    by (rule address_enrich)
  show "map name (enrich c reg)
       = map (\<lambda>a. case callName c a of Inl e \<Rightarrow> ''<Error fetching name>'' | Inr n \<Rightarrow> n) reg"
    by (induction reg) (auto simp: enrichOne_def split: sum.splits)
  show "enrich c (xs @ ys) = enrich c xs @ enrich c ys"
    by (induction xs) simp_all
next
  assume a: "connect c url = Inr u \<and> getBlockNumber c = Inr latest
        \<and> scanBlocks K p cfg (getBlock c) latest = Some (Finished st) \<and> foundTokens st \<noteq> []"
  then have "map_option fst (scanRecentApprovals K p cfg c url) =
         Some (Inr (case registryOf (Finished st) of
                      Inl e \<Rightarrow> UnexpectedError
                    | Inr reg \<Rightarrow> if reg = [] then NoApprovals else ScanComplete (enrich c reg)))"
    by (intro scanRecentApprovals_report [of c url u latest K p cfg "Finished st"]) blast+
  then show "map_option fst (scanRecentApprovals K p cfg c url)
             = Some (Inr (ScanComplete (enrich c (foundTokens st))))"
    using a by simp
qed

theorem enrich_one_record_per_entry_witness:
  "enrich sampleChain [''0x55d398326F99059Ff775485246999027b3197955'',
                       ''0xbb4CdB9CBd36B01bD1cBaEBF2De08d9173bc095c'']
     = [\<lparr>address = ''0x55d398326F99059Ff775485246999027b3197955'', name = ''<Error fetching name>''\<rparr>,
        \<lparr>address = ''0xbb4CdB9CBd36B01bD1cBaEBF2De08d9173bc095c'', name = ''Wrapped BNB''\<rparr>]
   \<and> map_option fst (scanRecentApprovals sampleHash sampleParser smallConfig sampleChain ''http://localhost:8545'')
     = Some (Inr (ScanComplete
         [\<lparr>address = ''0x55d398326F99059Ff775485246999027b3197955'', name = ''<Error fetching name>''\<rparr>]))"
proof -
  let ?token = "''0x55d398326F99059Ff775485246999027b3197955''"
  let ?st = "\<lparr>foundTokens = [?token], fetchLog = [[3, 4], [5, 6], [7]]\<rparr>"
  have e: "enrich sampleChain [?token, ''0xbb4CdB9CBd36B01bD1cBaEBF2De08d9173bc095c'']
     = [\<lparr>address = ?token, name = ''<Error fetching name>''\<rparr>,
        \<lparr>address = ''0xbb4CdB9CBd36B01bD1cBaEBF2De08d9173bc095c'', name = ''Wrapped BNB''\<rparr>]"
    by code_simp
  have e1: "enrich sampleChain (foundTokens ?st) = [\<lparr>address = ?token, name = ''<Error fetching name>''\<rparr>]"
    by code_simp
  have h: "connect sampleChain ''http://localhost:8545'' = Inr ()
      \<and> getBlockNumber sampleChain = Inr 7
      \<and> scanBlocks sampleHash sampleParser smallConfig (getBlock sampleChain) 7 = Some (Finished ?st)
      \<and> foundTokens ?st \<noteq> []"
    by code_simp
  note T = enrich_one_record_per_entry [where c = sampleChain and url = "''http://localhost:8545''"
      and u = "()" and latest = 7 and K = sampleHash and p = sampleParser and cfg = smallConfig
      and st = ?st]
  have "map_option fst (scanRecentApprovals sampleHash sampleParser smallConfig sampleChain ''http://localhost:8545'')
     = Some (Inr (ScanComplete (enrich sampleChain (foundTokens ?st))))"
    using T [THEN conjunct2, THEN conjunct2, THEN conjunct2] h by blast
  then show ?thesis
    unfolding e1 using e by blast
qed

text \<open>
  C9. The process is to exit with a non-zero status when the node cannot be reached or the
  scan fails. With a node that refuses the connection, and with a node that fails at the
  first request after it, the script reports the error and ends with exit code 0: the
  \<^verbatim>\<open>catch\<close> blocks of lines 40 and 128 return normally, so the
  \<^verbatim>\<open>process.exit(1)\<close> of line 144 is never reached.
\<close>

theorem unreachable_node_exits_zero:
  "main sampleHash sampleParser defaultConfig deadChain (Some ''http://localhost:8545'') =
     Some \<lparr>requests = [Connect ''http://localhost:8545''], report = ConnectError, exitCode = 0\<rparr>
   \<and> main sampleHash sampleParser defaultConfig failingChain (Some ''http://localhost:8545'') =
     Some \<lparr>requests = [Connect ''http://localhost:8545'', GetBlockNumber],
           report = UnexpectedError, exitCode = 0\<rparr>"
  by code_simp

text \<open>
  C10. When \<^verbatim>\<open>BSC_RPC_URL\<close> is absent, empty or still the placeholder, the script reports
  that it is not configured and sends no request at all. With any other URL the scan is
  invoked: whatever the script then returns is not that report, and its first request is
  the connection to that URL; with a positive batch size it does return.
\<close>

theorem placeholder_url_never_scans:
  "(env = None \<or> env = Some [] \<or> env = Some ''YOUR_BSC_RPC_URL'' \<longrightarrow>
      main K p cfg c env = Some \<lparr>requests = [], report = NotConfigured, exitCode = 0\<rparr>)
   \<and> (env = Some u \<and> u \<noteq> [] \<and> u \<noteq> ''YOUR_BSC_RPC_URL'' \<and> main K p cfg c env = Some r \<longrightarrow>
        report r \<noteq> NotConfigured \<and> (\<exists>reqs. requests r = Connect u # reqs))
   \<and> (env = Some u \<and> u \<noteq> [] \<and> u \<noteq> ''YOUR_BSC_RPC_URL'' \<and> 0 < batchSize cfg \<longrightarrow>
        (\<exists>r. main K p cfg c env = Some r))"
proof (intro conjI impI)
  assume "env = None \<or> env = Some [] \<or> env = Some ''YOUR_BSC_RPC_URL''"
  then show "main K p cfg c env = Some \<lparr>requests = [], report = NotConfigured, exitCode = 0\<rparr>"
    by (rule not_configured)
next
  assume a: "env = Some u \<and> u \<noteq> [] \<and> u \<noteq> ''YOUR_BSC_RPC_URL'' \<and> 0 < batchSize cfg"
  then obtain oc reqs where "scanRecentApprovals K p cfg c u = Some (Inr oc, reqs)"
    using scanRecentApprovals_resolves [of cfg K p c u] by blast
  moreover have "main K p cfg c env =
     (case scanRecentApprovals K p cfg c u of
           None \<Rightarrow> None
         | Some (Inl err, reqs) \<Rightarrow> Some \<lparr>requests = reqs, report = ScriptFailed, exitCode = 1\<rparr>
         | Some (Inr oc, reqs) \<Rightarrow> Some \<lparr>requests = reqs, report = oc, exitCode = 0\<rparr>)"
    using a configured [of u K p cfg c] by blast
  ultimately show "\<exists>r. main K p cfg c env = Some r"
    by simp
next
  assume a: "env = Some u \<and> u \<noteq> [] \<and> u \<noteq> ''YOUR_BSC_RPC_URL'' \<and> main K p cfg c env = Some r"
  then have e: "env = Some u" and n: "u \<noteq> []" "u \<noteq> ''YOUR_BSC_RPC_URL''"
    and mr: "main K p cfg c env = Some r"
    by blast+
  have m: "(case scanRecentApprovals K p cfg c u of
           None \<Rightarrow> None
         | Some (Inl err, reqs) \<Rightarrow> Some \<lparr>requests = reqs, report = ScriptFailed, exitCode = 1\<rparr>
         | Some (Inr oc, reqs) \<Rightarrow> Some \<lparr>requests = reqs, report = oc, exitCode = 0\<rparr>) = Some r"
    using mr unfolding e configured [OF n] .
  then obtain res reqs where run: "scanRecentApprovals K p cfg c u = Some (res, reqs)"
    by (cases "scanRecentApprovals K p cfg c u") auto
  then obtain oc where oc: "res = Inr oc"
    using scanRecentApprovals_never_rejects [of K p cfg c u _ reqs] by (cases res) auto
  have r: "r = \<lparr>requests = reqs, report = oc, exitCode = 0\<rparr>"
    using m run oc by simp
  have "oc \<noteq> NotConfigured \<and> (\<exists>rest. reqs = Connect u # rest)"
    using run oc
    by (auto simp: scanRecentApprovals_def split: sum.splits option.splits scan_result.splits if_splits)
  then show "report r \<noteq> NotConfigured" and "\<exists>reqs. requests r = Connect u # reqs"
    unfolding r by simp_all
qed

theorem placeholder_url_never_scans_witness:
  "main sampleHash sampleParser defaultConfig sampleChain None =
     Some \<lparr>requests = [], report = NotConfigured, exitCode = 0\<rparr>
   \<and> main sampleHash sampleParser defaultConfig sampleChain (Some ''YOUR_BSC_RPC_URL'') =
     Some \<lparr>requests = [], report = NotConfigured, exitCode = 0\<rparr>
   \<and> (\<exists>r. main sampleHash sampleParser defaultConfig sampleChain (Some ''http://localhost:8545'') = Some r)"
proof -
  have b: "0 < batchSize defaultConfig"
    by (simp add: defaultConfig_def BATCH_SIZE_def)
  have u: "''http://localhost:8545'' \<noteq> []" "''http://localhost:8545'' \<noteq> ''YOUR_BSC_RPC_URL''"
    by simp_all
  note T = placeholder_url_never_scans [where K = sampleHash and p = sampleParser
      and cfg = defaultConfig and c = sampleChain]
  have one: "main sampleHash sampleParser defaultConfig sampleChain None =
     Some \<lparr>requests = [], report = NotConfigured, exitCode = 0\<rparr>"
    using T [where env = None, THEN conjunct1] by blast
  have two: "main sampleHash sampleParser defaultConfig sampleChain (Some ''YOUR_BSC_RPC_URL'') =
     Some \<lparr>requests = [], report = NotConfigured, exitCode = 0\<rparr>"
    using T [where env = "Some ''YOUR_BSC_RPC_URL''", THEN conjunct1] by blast
  have three: "\<exists>r. main sampleHash sampleParser defaultConfig sampleChain (Some ''http://localhost:8545'') = Some r"
    using T [where env = "Some ''http://localhost:8545''" and u = "''http://localhost:8545''",
        THEN conjunct2, THEN conjunct2] b u by blast
  show ?thesis
    using one two three by blast
qed

end
